theory Spec2Isabelle
  imports Main "HOL-Library.Word"
begin

unbundle bit_operations_syntax

section \<open>Data model\<close>

text \<open>
  The package \<open>bitmask\<close> works on Go's \<open>int\<close>: a signed two's-complement machine
  integer. Masks, identifiers and the bit counter of \<open>Decode\<close> all have that type.
  The definitions are written for an arbitrary width \<open>LENGTH('a)\<close>; the concrete
  scenarios are checked at 64 bits, the width of \<open>int\<close> on the platforms where the
  package's tests compile (they use the \<open>int\<close> constant \<open>1 << 31\<close>).
\<close>

type_synonym int64 = "64 word"

text \<open>
  The only run-time fault the four functions can raise is Go's panic on a shift by a
  negative count. A shift count of the width or more is not a fault in Go: the result of
  the left shift is then 0.
\<close>

datatype panic = NegativeShift

text \<open>The expression \<open>1 << id\<close> with both operands of type \<open>int\<close>.\<close>

definition shl1 :: "'a::len word \<Rightarrow> panic + 'a word" where
  "shl1 ident = (if sint ident < 0 then Inl NegativeShift else Inr (push_bit (nat (sint ident)) 1))"

text \<open>The valid identifiers of the specification: the range \<open>[0, W - 1]\<close>.\<close>

definition valid_id :: "'a::len word \<Rightarrow> bool" where
  "valid_id ident \<longleftrightarrow> 0 \<le> sint ident \<and> sint ident \<le> int LENGTH('a) - 1"

section \<open>The four operations\<close>

text \<open>
  \<open>Encode\<close>: the loop \<open>for _, id := range ids { mask |= 1 << id }\<close>, with the mask as
  the accumulator, started at 0.
\<close>

fun Encode_loop :: "'a::len word \<Rightarrow> 'a word list \<Rightarrow> panic + 'a word" where
  "Encode_loop msk [] = Inr msk"
| "Encode_loop msk (ident # ids) =
     (case shl1 ident of
        Inl e \<Rightarrow> Inl e
      | Inr b \<Rightarrow> Encode_loop (msk OR b) ids)"

definition Encode :: "'a::len word list \<Rightarrow> panic + 'a word" where
  "Encode ids = Encode_loop 0 ids"

text \<open>
  \<open>Decode\<close>: the loop \<open>for bit := 0; mask != 0; bit++\<close>, which appends \<open>bit\<close> when
  \<open>mask & 1 == 1\<close> and then executes \<open>mask >>= 1\<close>. On a signed \<open>int\<close> the shift
  \<open>>>\<close> is arithmetic (the sign bit is copied), which is \<open>signed_drop_bit\<close>. The loop
  has no bound, so the model is a partial function: \<open>None\<close> is a run that never
  returns.
\<close>

partial_function (option)
  Decode_loop :: "'a::len word \<Rightarrow> 'a word \<Rightarrow> 'a word list \<Rightarrow> 'a word list option"
where
  "Decode_loop pos msk ids =
     (if msk = 0 then Some ids
      else Decode_loop (pos + 1) (signed_drop_bit 1 msk)
             (if msk AND 1 = 1 then ids @ [pos] else ids))"

definition Decode :: "'a::len word \<Rightarrow> 'a word list option" where
  "Decode msk = Decode_loop 0 msk []"

text \<open>\<open>HasBit\<close>: \<open>(mask & (1 << id)) != 0\<close>.\<close>

definition HasBit :: "'a::len word \<Rightarrow> 'a word \<Rightarrow> panic + bool" where
  "HasBit msk ident =
     (case shl1 ident of
        Inl e \<Rightarrow> Inl e
      | Inr b \<Rightarrow> Inr (msk AND b \<noteq> 0))"

text \<open>\<open>ToggleBit\<close>: \<open>mask ^ (1 << id)\<close>.\<close>

definition ToggleBit :: "'a::len word \<Rightarrow> 'a word \<Rightarrow> panic + 'a word" where
  "ToggleBit msk ident =
     (case shl1 ident of
        Inl e \<Rightarrow> Inl e
      | Inr b \<Rightarrow> Inr (msk XOR b))"

section \<open>Shifting by a valid identifier\<close>

lemma valid_id_nat_less:
  "valid_id (i::'a::len word) \<Longrightarrow> nat (sint i) < LENGTH('a)"
  by (auto simp add: valid_id_def nat_less_iff)

lemma shl1_valid:
  "valid_id i \<Longrightarrow> shl1 i = Inr (2 ^ nat (sint i))"
  by (simp add: valid_id_def shl1_def)

lemma bit_pow2_word:
  "bit (2 ^ n :: 'a::len word) k \<longleftrightarrow> k = n \<and> n < LENGTH('a)"
  by (auto simp add: bit_exp_iff)

lemma valid_id_inj:
  "valid_id i \<Longrightarrow> valid_id j \<Longrightarrow> nat (sint i) = nat (sint j) \<Longrightarrow> i = j"
proof (rule signed_word_eqI)
  assume "valid_id i" "valid_id j" "nat (sint i) = nat (sint j)"
  then show "sint i = sint j" by (simp add: valid_id_def eq_nat_nat_iff)
qed

lemma HasBit_valid:
  "valid_id i \<Longrightarrow> HasBit m i = Inr (bit m (nat (sint i)))"
  by (simp add: HasBit_def shl1_valid and_exp_eq_0_iff_not_bit)

lemma ToggleBit_valid:
  "valid_id i \<Longrightarrow> ToggleBit m i = Inr (m XOR 2 ^ nat (sint i))"
  by (simp add: ToggleBit_def shl1_valid)

section \<open>Point operations\<close>

text \<open>
  Claim C4 (bit independence): for every mask \<open>m\<close> and every identifier \<open>i\<close> in
  \<open>[0, W - 1]\<close>, \<open>ToggleBit\<close> and \<open>HasBit\<close> return without a panic, and
  \<open>HasBit (ToggleBit m i) i\<close> is the negation of \<open>HasBit m i\<close>.
\<close>

theorem HasBit_ToggleBit_same:
  "valid_id i \<Longrightarrow>
     \<exists>m' b. ToggleBit m i = Inr m' \<and> HasBit m i = Inr b \<and> HasBit m' i = Inr (\<not> b)"
  by (simp add: HasBit_valid ToggleBit_valid bit_xor_iff bit_pow2_word valid_id_nat_less)

theorem HasBit_ToggleBit_same_witness:
  "valid_id (3::int64) \<and>
   (\<exists>m' b. ToggleBit (42::int64) 3 = Inr m' \<and> HasBit (42::int64) 3 = Inr b \<and>
      HasBit m' 3 = Inr (\<not> b))"
proof -
  have h: "valid_id (3::int64)" by (simp add: valid_id_def)
  from HasBit_ToggleBit_same [OF h, of 42] show ?thesis using h by blast
qed

text \<open>
  Claim C5 (toggle involution): for every mask \<open>m\<close> and every identifier \<open>i\<close> in
  \<open>[0, W - 1]\<close>, toggling bit \<open>i\<close> twice returns \<open>m\<close>.
\<close>

theorem ToggleBit_involution:
  "valid_id i \<Longrightarrow> \<exists>m'. ToggleBit m i = Inr m' \<and> ToggleBit m' i = Inr m"
  by (simp add: ToggleBit_valid xor.assoc)

theorem ToggleBit_involution_witness:
  "valid_id (63::int64) \<and>
   (\<exists>m'. ToggleBit (42::int64) 63 = Inr m' \<and> ToggleBit m' 63 = Inr 42)"
proof -
  have h: "valid_id (63::int64)" by (simp add: valid_id_def)
  from ToggleBit_involution [OF h, of 42] show ?thesis using h by blast
qed

text \<open>
  Claim C6 (unrelated-bit preservation): for every mask \<open>m\<close> and distinct identifiers
  \<open>i1\<close>, \<open>i2\<close> in \<open>[0, W - 1]\<close>, \<open>HasBit (ToggleBit m i1) i2\<close> equals \<open>HasBit m i2\<close>
  (a Boolean, not a panic), and \<open>ToggleBit m i1\<close> differs from \<open>m\<close> at no bit position
  other than \<open>i1\<close>.
\<close>

theorem ToggleBit_other_bits:
  "valid_id i1 \<Longrightarrow> valid_id i2 \<Longrightarrow> i1 \<noteq> i2 \<Longrightarrow>
     \<exists>m'. ToggleBit m i1 = Inr m' \<and>
          (\<exists>b. HasBit m i2 = Inr b \<and> HasBit m' i2 = Inr b) \<and>
          (\<forall>n. n \<noteq> nat (sint i1) \<longrightarrow> bit m' n = bit m n)"
  using valid_id_inj [of i1 i2]
  by (auto simp add: HasBit_valid ToggleBit_valid bit_xor_iff bit_pow2_word)

theorem ToggleBit_other_bits_witness:
  "valid_id (3::int64) \<and> valid_id (5::int64) \<and> (3::int64) \<noteq> 5 \<and>
   (\<exists>m'. ToggleBit (42::int64) 3 = Inr m' \<and>
      (\<exists>b. HasBit (42::int64) 5 = Inr b \<and> HasBit m' 5 = Inr b) \<and>
      (\<forall>n. n \<noteq> nat (sint (3::int64)) \<longrightarrow> bit m' n = bit (42::int64) n))"
proof -
  have h1: "valid_id (3::int64)" by (simp add: valid_id_def)
  have h2: "valid_id (5::int64)" by (simp add: valid_id_def)
  have h3: "(3::int64) \<noteq> 5" by simp
  from ToggleBit_other_bits [OF h1 h2 h3, of 42] show ?thesis using h1 h2 h3 by blast
qed

section \<open>Concrete scenarios\<close>

text \<open>
  Claim C8: the concrete scenarios of the specification, on 64-bit \<open>int\<close>:
  \<open>Encode []\<close> is 0, \<open>Encode [1,3,5]\<close> is 42, \<open>Encode [1,1,3]\<close> is 10, \<open>Encode [31]\<close>
  is \<open>2^31\<close>, \<open>Decode 42\<close> is \<open>[1,3,5]\<close>, \<open>Decode 15\<close> is \<open>[0,1,2,3]\<close>,
  \<open>HasBit 42 3\<close> is true, \<open>HasBit 42 2\<close> is false, \<open>ToggleBit 0 2\<close> is 4 and
  \<open>ToggleBit 4 2\<close> is 0.
\<close>

theorem concrete_scenarios:
  "Encode ([] :: int64 list) = Inr 0 \<and>
   Encode [1, 3, 5 :: int64] = Inr 42 \<and>
   Encode [1, 1, 3 :: int64] = Inr 10 \<and>
   Encode [31 :: int64] = Inr (2 ^ 31) \<and>
   sint (2 ^ 31 :: int64) = 2147483648 \<and>
   Decode (42 :: int64) = Some [1, 3, 5] \<and>
   Decode (15 :: int64) = Some [0, 1, 2, 3] \<and>
   HasBit (42 :: int64) 3 = Inr True \<and>
   HasBit (42 :: int64) 2 = Inr False \<and>
   ToggleBit (0 :: int64) 2 = Inr 4 \<and>
   ToggleBit (4 :: int64) 2 = Inr 0"
  by (simp add: Encode_def Decode_def Decode_loop.simps HasBit_def ToggleBit_def shl1_def)

section \<open>The loop of Encode\<close>

text \<open>
  On valid identifiers the loop returns, and the bits of its result are those of the
  starting mask together with the positions named by the identifiers.
\<close>

lemma Encode_loop_valid:
  "\<forall>i\<in>set ids. valid_id i \<Longrightarrow>
     \<exists>m'. Encode_loop m ids = Inr m' \<and>
          (\<forall>n. bit m' n \<longleftrightarrow> bit m n \<or> n \<in> (\<lambda>i. nat (sint i)) ` set ids)"
proof (induction ids arbitrary: m)
  case Nil
  then show ?case by simp
next
  case (Cons i ids)
  then have i: "valid_id i" and rest: "\<forall>j\<in>set ids. valid_id j" by simp_all
  from Cons.IH [OF rest, of "m OR 2 ^ nat (sint i)"]
  obtain m' where m': "Encode_loop (m OR 2 ^ nat (sint i)) ids = Inr m'"
    and bits: "\<forall>n. bit m' n \<longleftrightarrow>
      bit (m OR 2 ^ nat (sint i)) n \<or> n \<in> (\<lambda>i. nat (sint i)) ` set ids"
    by blast
  from i m' have "Encode_loop m (i # ids) = Inr m'" by (simp add: shl1_valid)
  moreover have "\<forall>n. bit m' n \<longleftrightarrow> bit m n \<or> n \<in> (\<lambda>i. nat (sint i)) ` set (i # ids)"
    using bits valid_id_nat_less [OF i] by (auto simp add: bit_or_iff bit_pow2_word)
  ultimately show ?case by blast
qed

lemma Encode_valid:
  "\<forall>i\<in>set ids. valid_id i \<Longrightarrow>
     \<exists>m. Encode ids = Inr m \<and> (\<forall>n. bit m n \<longleftrightarrow> n \<in> (\<lambda>i. nat (sint i)) ` set ids)"
  using Encode_loop_valid [of ids 0] by (simp add: Encode_def)

section \<open>The loop of Decode\<close>

text \<open>
  Whenever the loop returns, the mask it was started on is not negative: the arithmetic
  shift keeps the sign, so a negative mask never becomes 0.
\<close>

lemma Decode_loop_returns_nonneg:
  assumes ret: "Decode_loop p m ids = Some y"
  shows "0 \<le> sint m"
proof (rule Decode_loop.raw_induct [where P = "\<lambda>p m ids y. 0 \<le> sint m", OF _ ret])
  fix f :: "'a word \<Rightarrow> 'a word \<Rightarrow> 'a word list \<Rightarrow> 'a word list option"
  fix p m :: "'a word" and ids y :: "'a word list"
  assume IH: "\<And>p m ids y. f p m ids = Some y \<Longrightarrow> 0 \<le> sint m"
    and step: "(if m = 0 then Some ids
      else f (p + 1) (signed_drop_bit 1 m) (if m AND 1 = 1 then ids @ [p] else ids)) = Some y"
  show "0 \<le> sint m"
  proof (cases "m = 0")
    case True
    then show ?thesis by simp
  next
    case False
    with step
    have "f (p + 1) (signed_drop_bit 1 m) (if m AND 1 = 1 then ids @ [p] else ids) = Some y"
      by simp
    then have "0 \<le> sint (signed_drop_bit 1 m)" by (rule IH)
    then show ?thesis by (simp add: sint_signed_drop_bit_eq drop_bit_eq_div)
  qed
qed

text \<open>
  On a mask whose bits from position \<open>k\<close> on are clear, with \<open>k\<close> below the width (so
  that the sign bit is clear), the loop returns after at most \<open>k\<close> rounds with the set
  positions below \<open>k\<close> appended in ascending order.
\<close>

lemma signed_drop_bit_nonneg:
  "\<not> bit m (LENGTH('a) - Suc 0) \<Longrightarrow> signed_drop_bit n m = drop_bit n (m::'a::len word)"
  by (rule bit_word_eqI) (auto simp add: bit_signed_drop_bit_iff bit_drop_bit_eq dest: bit_imp_le_length)

lemma and_1_eq_1_iff_bit0: "(m::'a::len word) AND 1 = 1 \<longleftrightarrow> bit m 0"
  using bit_iff_and_drop_bit_eq_1 [of m 0] by simp

lemma upt_Suc_shift: "[0..<Suc k] = 0 # map Suc [0..<k]"
  by (simp add: upt_conv_Cons map_Suc_upt del: upt_Suc)

lemma Decode_loop_clear_above:
  "(\<forall>n\<ge>k. \<not> bit m n) \<Longrightarrow> k < LENGTH('a) \<Longrightarrow>
     Decode_loop p (m::'a::len word) ids =
       Some (ids @ map (\<lambda>n. p + of_nat n) (filter (bit m) [0..<k]))"
proof (induction k arbitrary: p m ids)
  case 0
  then have "m = 0" by (simp add: bit_eq_iff)
  then show ?case by (simp add: Decode_loop.simps)
next
  case (Suc k)
  show ?case
  proof (cases "m = 0")
    case True
    then show ?thesis by (simp add: Decode_loop.simps)
  next
    case False
    from Suc.prems have top: "\<not> bit m (LENGTH('a) - Suc 0)" by simp
    have sh: "signed_drop_bit (Suc 0) m = drop_bit (Suc 0) m"
      using top by (rule signed_drop_bit_nonneg)
    have clear: "\<forall>n\<ge>k. \<not> bit (drop_bit 1 m) n"
      using Suc.prems(1) by (simp add: bit_drop_bit_eq)
    have k: "k < LENGTH('a)" using Suc.prems(2) by simp
    have flt: "filter (bit m) [0..<Suc k] =
        (if bit m 0 then [0] else []) @ map Suc (filter (bit (drop_bit 1 m)) [0..<k])"
      by (simp add: upt_Suc_shift filter_map bit_drop_bit_eq comp_def del: upt_Suc)
    have "Decode_loop p m ids =
        Decode_loop (p + 1) (drop_bit 1 m) (if bit m 0 then ids @ [p] else ids)"
      using False by (subst Decode_loop.simps) (simp add: sh and_1_eq_1_iff_bit0)
    also have "\<dots> = Some ((if bit m 0 then ids @ [p] else ids) @
        map (\<lambda>n. p + 1 + of_nat n) (filter (bit (drop_bit 1 m)) [0..<k]))"
      using clear k by (rule Suc.IH)
    also have "\<dots> = Some (ids @ map (\<lambda>n. p + of_nat n) (filter (bit m) [0..<Suc k]))"
      unfolding flt by (simp add: comp_def ac_simps)
    finally show ?thesis .
  qed
qed

section \<open>Identifiers and bit positions\<close>

lemma sint_of_nat_small:
  assumes "n < LENGTH('a::len)"
  shows "sint (of_nat n :: 'a word) = int n"
proof -
  have "n \<le> LENGTH('a) - Suc 0" using assms by simp
  then have "(2::nat) ^ n \<le> 2 ^ (LENGTH('a) - Suc 0)" by (simp add: power_increasing)
  with less_exp [of n] have "n < 2 ^ (LENGTH('a) - Suc 0)" by (rule less_le_trans)
  then have hi: "int n < 2 ^ (LENGTH('a) - Suc 0)"
    by simp
  have lo: "- (2 ^ (LENGTH('a) - Suc 0)) \<le> int n"
    by (rule order_trans [of _ 0]) simp_all
  from lo hi have "signed_take_bit (LENGTH('a) - Suc 0) (int n) = int n"
    by (rule signed_take_bit_int_eq_self)
  then show ?thesis
    by (simp add: signed_of_nat)
qed

lemma of_nat_nat_sint:
  "valid_id (i::'a::len word) \<Longrightarrow> of_nat (nat (sint i)) = i"
proof (rule signed_word_eqI)
  assume v: "valid_id i"
  from valid_id_nat_less [OF v] have "sint (of_nat (nat (sint i)) :: 'a word) = int (nat (sint i))"
    by (rule sint_of_nat_small)
  with v show "sint (of_nat (nat (sint i)) :: 'a word) = sint i"
    by (simp add: valid_id_def)
qed

lemma valid_id_of_nat:
  "n < LENGTH('a::len) \<Longrightarrow> valid_id (of_nat n :: 'a word)"
  by (simp add: valid_id_def sint_of_nat_small)

text \<open>
  On a non-negative mask \<open>Decode\<close> returns the set bit positions in ascending order.
\<close>

lemma Decode_nonneg:
  assumes "0 \<le> sint (m::'a::len word)"
  shows "Decode m = Some (map of_nat (filter (bit m) [0..<LENGTH('a)]))"
proof -
  obtain k where L: "LENGTH('a) = Suc k"
    by (cases "LENGTH('a)") simp_all
  from assms have top: "\<not> bit m k" using bit_last_iff [of m] by (simp add: L)
  have clear: "\<forall>n\<ge>k. \<not> bit m n"
  proof (intro allI impI)
    fix n assume "k \<le> n"
    show "\<not> bit m n"
    proof
      assume b: "bit m n"
      then have "n < LENGTH('a)" by (rule bit_imp_le_length)
      with \<open>k \<le> n\<close> have "n = k" by (simp add: L)
      with b top show False by simp
    qed
  qed
  have "k < LENGTH('a)" by (simp add: L)
  with clear have "Decode_loop 0 m [] =
      Some ([] @ map (\<lambda>n. 0 + of_nat n) (filter (bit m) [0..<k]))"
    by (rule Decode_loop_clear_above)
  moreover have "filter (bit m) [0..<LENGTH('a)] = filter (bit m) [0..<k]"
    by (simp add: L top)
  ultimately show ?thesis by (simp add: Decode_def)
qed

text \<open>On a negative mask \<open>Decode\<close> does not return.\<close>

lemma Decode_negative:
  "sint m < 0 \<Longrightarrow> Decode m = None"
proof (rule ccontr)
  assume neg: "sint m < 0" and "Decode m \<noteq> None"
  then obtain y where "Decode_loop 0 m [] = Some y" by (auto simp add: Decode_def)
  then have "0 \<le> sint m" by (rule Decode_loop_returns_nonneg)
  with neg show False by simp
qed

section \<open>Encoding\<close>

text \<open>
  Claim C7 (idempotence under duplicates): for every list of identifiers in
  \<open>[0, W - 1]\<close>, \<open>Encode\<close> returns a mask that depends on the set of identifiers only:
  it returns the same mask on every list \<open>ids'\<close> with the same elements, whatever their
  order and multiplicity. In particular it returns that mask on the list in which only
  the first occurrence of each identifier is kept, \<open>rev (remdups (rev ids))\<close>, so that
  a repeated occurrence has no effect beyond the first, and on \<open>remdups ids\<close>, in which
  only the last occurrence is kept.
\<close>

theorem Encode_same_set:
  "\<forall>i\<in>set ids. valid_id i \<Longrightarrow> set ids' = set ids \<Longrightarrow>
     \<exists>m. Encode ids = Inr m \<and> Encode ids' = Inr m \<and>
         Encode (rev (remdups (rev ids))) = Inr m \<and> Encode (remdups ids) = Inr m"
proof -
  assume v: "\<forall>i\<in>set ids. valid_id i" and eq: "set ids' = set ids"
  from Encode_valid [OF v] obtain m where m: "Encode ids = Inr m"
    and bm: "\<forall>n. bit m n \<longleftrightarrow> n \<in> (\<lambda>i. nat (sint i)) ` set ids" by blast
  have same: "Encode xs = Inr m" if xs: "set xs = set ids" for xs :: "'a word list"
  proof -
    from v xs have "\<forall>i\<in>set xs. valid_id i" by simp
    from Encode_valid [OF this] obtain m' where m': "Encode xs = Inr m'"
      and bm': "\<forall>n. bit m' n \<longleftrightarrow> n \<in> (\<lambda>i. nat (sint i)) ` set xs" by blast
    have "m' = m" by (rule bit_word_eqI) (simp add: bm bm' xs)
    with m' show ?thesis by simp
  qed
  have "Encode ids' = Inr m" using eq by (rule same)
  moreover have "Encode (rev (remdups (rev ids))) = Inr m" by (rule same) simp
  moreover have "Encode (remdups ids) = Inr m" by (rule same) simp
  ultimately show ?thesis using m by simp
qed

theorem Encode_same_set_witness:
  "valid_id (1 :: int64) \<and> valid_id (3 :: int64) \<and>
   set [3, 1 :: int64] = set [3, 1, 3 :: int64] \<and>
   rev (remdups (rev [3, 1, 3 :: int64])) = [3, 1] \<and>
   remdups [3, 1, 3 :: int64] = [1, 3] \<and>
   (\<exists>m. Encode [3, 1, 3 :: int64] = Inr m \<and> Encode [3, 1 :: int64] = Inr m \<and>
      Encode (rev (remdups (rev [3, 1, 3 :: int64]))) = Inr m \<and>
      Encode (remdups [3, 1, 3 :: int64]) = Inr m)"
proof -
  have v: "valid_id (1 :: int64)" "valid_id (3 :: int64)" by (simp_all add: valid_id_def)
  then have h: "\<forall>i\<in>set [3, 1, 3 :: int64]. valid_id i" by simp
  have e: "set [3, 1 :: int64] = set [3, 1, 3 :: int64]" by auto
  have r: "rev (remdups (rev [3, 1, 3 :: int64])) = [3, 1]"
    "remdups [3, 1, 3 :: int64] = [1, 3]" by simp_all
  from Encode_same_set [OF h e] show ?thesis using v e r by blast
qed

text \<open>
  Claim C10 (membership agreement): for every list of identifiers in \<open>[0, W - 1]\<close> and
  every identifier \<open>j\<close> in \<open>[0, W - 1]\<close>, \<open>HasBit (Encode ids) j\<close> is true exactly when
  \<open>j\<close> occurs in \<open>ids\<close>.
\<close>

theorem HasBit_Encode_member:
  "\<forall>i\<in>set ids. valid_id i \<Longrightarrow> valid_id j \<Longrightarrow>
     \<exists>m. Encode ids = Inr m \<and> HasBit m j = Inr (j \<in> set ids)"
proof -
  assume v: "\<forall>i\<in>set ids. valid_id i" and j: "valid_id j"
  from Encode_valid [OF v] obtain m where m: "Encode ids = Inr m"
    and bm: "\<forall>n. bit m n \<longleftrightarrow> n \<in> (\<lambda>i. nat (sint i)) ` set ids" by blast
  have "nat (sint j) \<in> (\<lambda>i. nat (sint i)) ` set ids \<longleftrightarrow> j \<in> set ids"
    using v j by (auto dest: valid_id_inj)
  with m bm j show ?thesis by (simp add: HasBit_valid)
qed

theorem HasBit_Encode_member_witness:
  "valid_id (1 :: int64) \<and> valid_id (3 :: int64) \<and> valid_id (5 :: int64) \<and>
   (\<exists>m. Encode [1, 3, 5 :: int64] = Inr m \<and> HasBit m 3 = Inr (3 \<in> set [1, 3, 5 :: int64]))"
proof -
  have v: "valid_id (1 :: int64)" "valid_id (3 :: int64)" "valid_id (5 :: int64)"
    by (simp_all add: valid_id_def)
  then have h: "\<forall>i\<in>set [1, 3, 5 :: int64]. valid_id i" by simp
  from HasBit_Encode_member [OF h v(2)] show ?thesis using v by blast
qed

section \<open>Round trips\<close>

text \<open>
  Claim C9 (reverse round trip): for every non-negative mask \<open>m\<close>, \<open>Decode m\<close> returns
  a list of identifiers and \<open>Encode\<close> of that list returns \<open>m\<close>.
\<close>

theorem Encode_Decode_nonneg:
  "0 \<le> sint (m::'a::len word) \<Longrightarrow> \<exists>ids. Decode m = Some ids \<and> Encode ids = Inr m"
proof -
  assume nn: "0 \<le> sint m"
  let ?ids = "map of_nat (filter (bit m) [0..<LENGTH('a)]) :: 'a word list"
  have dec: "Decode m = Some ?ids" using nn by (rule Decode_nonneg)
  have v: "\<forall>i\<in>set ?ids. valid_id i" by (auto simp add: valid_id_of_nat)
  from Encode_valid [OF v] obtain m' where m': "Encode ?ids = Inr m'"
    and bm': "\<forall>n. bit m' n \<longleftrightarrow> n \<in> (\<lambda>i. nat (sint i)) ` set ?ids" by blast
  have "m' = m"
  proof (rule bit_word_eqI)
    fix n assume n: "n < LENGTH('a)"
    have "n \<in> (\<lambda>i. nat (sint i)) ` set ?ids \<longleftrightarrow> bit m n"
      using n by (auto simp add: sint_of_nat_small image_iff)
    then show "bit m' n = bit m n" by (simp add: bm')
  qed
  with dec m' show ?thesis by simp
qed

theorem Encode_Decode_nonneg_witness:
  "0 \<le> sint (42 :: int64) \<and> (\<exists>ids. Decode (42 :: int64) = Some ids \<and> Encode ids = Inr 42)"
proof -
  have h: "0 \<le> sint (42 :: int64)" by simp
  from Encode_Decode_nonneg [OF h] show ?thesis using h by blast
qed

lemma inj_on_sint: "inj_on (sint :: 'a::len word \<Rightarrow> int) A"
  by (rule inj_onI) (rule signed_word_eqI)

lemma map_sint_of_nat:
  "\<forall>n\<in>set ns. n < LENGTH('a::len) \<Longrightarrow>
     map sint (map of_nat ns :: 'a word list) = map int ns"
  by (simp add: sint_of_nat_small)

lemma sorted_map_int_filter: "sorted (map int (filter P [0..<k]))"
  by (rule sorted_filter) (simp add: sorted_map)

lemma distinct_map_int_filter: "distinct (map int (filter P [0..<k]))"
  by (simp add: distinct_map inj_on_def)

text \<open>
  The round trip on identifiers below the top position: for identifiers in
  \<open>[0, W - 2]\<close> the encoded mask is not negative, and decoding it returns the
  identifiers in ascending order without duplicates.
\<close>

lemma Decode_Encode_below_top:
  assumes r: "\<forall>i\<in>set ids. 0 \<le> sint i \<and> sint i \<le> int LENGTH('a) - 2"
  shows "\<exists>m. Encode (ids :: 'a::len word list) = Inr m \<and>
             Decode m = Some (sort_key sint (remdups ids))"
proof -
  from r have v: "\<forall>i\<in>set ids. valid_id i" by (auto simp add: valid_id_def)
  from Encode_valid [OF v] obtain m where m: "Encode ids = Inr m"
    and bm: "\<forall>n. bit m n \<longleftrightarrow> n \<in> (\<lambda>i. nat (sint i)) ` set ids" by blast
  have "\<not> bit m (LENGTH('a) - Suc 0)"
  proof
    assume "bit m (LENGTH('a) - Suc 0)"
    with bm obtain i where i: "i \<in> set ids" and eq: "LENGTH('a) - Suc 0 = nat (sint i)"
      by auto
    from r i have lo: "0 \<le> sint i" and hi: "sint i \<le> int LENGTH('a) - 2" by simp_all
    obtain k where L: "LENGTH('a) = Suc k" by (cases "LENGTH('a)") simp_all
    from eq lo have "int k = sint i" by (simp add: L)
    with hi show False by (simp add: L)
  qed
  then have nn: "0 \<le> sint m" by (simp add: bit_last_iff)
  let ?ns = "filter (bit m) [0..<LENGTH('a)]"
  let ?xs = "map of_nat ?ns :: 'a word list"
  let ?ys = "sort_key sint (remdups ids)"
  have dec: "Decode m = Some ?xs" using nn by (rule Decode_nonneg)
  have ms: "map sint ?xs = map int ?ns" by (rule map_sint_of_nat) simp
  have "?xs = ?ys"
  proof (rule map_sorted_distinct_set_unique [where f = sint])
    show "inj_on sint (set ?xs \<union> set ?ys)" by (rule inj_on_sint)
    show "sorted (map sint ?xs)" unfolding ms by (rule sorted_map_int_filter)
    show "distinct (map sint ?xs)" unfolding ms by (rule distinct_map_int_filter)
    show "sorted (map sint ?ys)" by (rule sorted_sort_key)
    show "distinct (map sint ?ys)" by (simp add: distinct_map inj_on_sint)
    show "set ?xs = set ?ys"
    proof (intro set_eqI iffI)
      fix x assume "x \<in> set ?xs"
      then obtain n where "bit m n" and x: "x = of_nat n" by auto
      with bm obtain i where i: "i \<in> set ids" and "n = nat (sint i)" by auto
      with v x have "x = i" by (simp add: of_nat_nat_sint)
      with i show "x \<in> set ?ys" by simp
    next
      fix x assume "x \<in> set ?ys"
      then have x: "x \<in> set ids" by simp
      with v have vx: "valid_id x" by simp
      from x bm have "bit m (nat (sint x))" by auto
      moreover from vx have "nat (sint x) < LENGTH('a)" by (rule valid_id_nat_less)
      ultimately have "of_nat (nat (sint x)) \<in> set ?xs" by simp
      with vx show "x \<in> set ?xs" by (simp only: of_nat_nat_sint)
    qed
  qed
  with m dec show ?thesis by simp
qed

text \<open>
  With the identifier \<open>W - 1\<close> in the list the encoded mask is negative, and decoding
  it does not return.
\<close>

lemma Decode_Encode_top_diverges:
  assumes v: "\<forall>i\<in>set ids. valid_id i"
    and top: "t \<in> set ids" "sint t = int LENGTH('a) - 1"
  shows "\<exists>m. Encode (ids :: 'a::len word list) = Inr m \<and> Decode m = None"
proof -
  from Encode_valid [OF v] obtain m where m: "Encode ids = Inr m"
    and bm: "\<forall>n. bit m n \<longleftrightarrow> n \<in> (\<lambda>i. nat (sint i)) ` set ids" by blast
  obtain k where L: "LENGTH('a) = Suc k" by (cases "LENGTH('a)") simp_all
  from top have "nat (sint t) = LENGTH('a) - Suc 0" by (simp add: L)
  with top(1) bm have "bit m (LENGTH('a) - Suc 0)" by force
  then have "sint m < 0" by (simp add: bit_last_iff)
  then have "Decode m = None" by (rule Decode_negative)
  with m show ?thesis by simp
qed

text \<open>
  Claim C1 (round trip) at the identifier \<open>W - 1\<close>: the list \<open>[1, 63]\<close> holds valid
  identifiers only and is its own sorted, duplicate-free form; \<open>Encode\<close> sets the sign
  bit of the 64-bit mask, and \<open>Decode\<close> of that mask never returns, where the round
  trip is to give \<open>[1, 63]\<close>.
\<close>

theorem Decode_Encode_top_id:
  "valid_id (1 :: int64) \<and> valid_id (63 :: int64) \<and>
   sort_key sint (remdups [1, 63 :: int64]) = [1, 63] \<and>
   Encode [1, 63 :: int64] = Inr (2 ^ 63 + 2) \<and>
   Decode (2 ^ 63 + 2 :: int64) = None"
proof -
  have "sint (2 ^ 63 + 2 :: int64) < 0" by simp
  then have "Decode (2 ^ 63 + 2 :: int64) = None" by (rule Decode_negative)
  then show ?thesis by (simp add: valid_id_def Encode_def shl1_def)
qed

section \<open>Decode on negative masks\<close>

text \<open>
  Claim C2 (\<open>Decode\<close> returns on every mask, negative ones included): on every
  negative mask the loop of \<open>Decode\<close> never ends, because the arithmetic right shift
  keeps the sign bit and the mask never becomes 0.
\<close>

theorem Decode_negative_never_returns: "sint m < 0 \<Longrightarrow> Decode m = None"
  by (rule Decode_negative)

theorem Decode_negative_never_returns_witness:
  "sint (- 1 :: int64) < 0 \<and> Decode (- 1 :: int64) = None"
proof -
  have h: "sint (- 1 :: int64) < 0" by simp
  from Decode_negative_never_returns [OF h] show ?thesis using h by simp
qed

text \<open>
  Claim C3 (totality on the valid domain) at the valid identifier 63: \<open>Encode\<close>,
  \<open>HasBit\<close> and \<open>ToggleBit\<close> return without a panic, and \<open>Decode\<close> of the mask that
  \<open>Encode [63]\<close> returns does not complete.
\<close>

theorem Decode_not_total:
  "valid_id (63 :: int64) \<and>
   (\<exists>m. Encode [63 :: int64] = Inr m \<and> (\<exists>b. HasBit m 63 = Inr b) \<and>
      (\<exists>m'. ToggleBit m 63 = Inr m') \<and> Decode m = None)"
proof -
  have "sint (2 ^ 63 :: int64) < 0" by simp
  then have "Decode (2 ^ 63 :: int64) = None" by (rule Decode_negative)
  then show ?thesis by (simp add: valid_id_def Encode_def shl1_def HasBit_def ToggleBit_def)
qed

end
